theory Spec2Isabelle
  imports Complex_Main "HOL-Library.Sublist"
begin

section \<open>FastBERT early-exit scheduling (uf/apps/fastbert/fastbert_classifier.py)\<close>

text \<open>
  The embedding follows \<^verbatim>\<open>FastBERTClassifier\<close>: the configuration update at the head of
  \<^verbatim>\<open>predict\<close>, \<^verbatim>\<open>score\<close> and \<^verbatim>\<open>export\<close>, and the two local functions
  \<^verbatim>\<open>_uncertainty\<close> and \<^verbatim>\<open>_permutate\<close> of \<^verbatim>\<open>_get_predict_outputs\<close> (repeated
  verbatim in \<^verbatim>\<open>_get_score_outputs\<close>).

  Modelling conventions.
  \<^item> Python floats are real numbers: rounding is not modelled. The one place where the
    IEEE special values matter, numpy's division by zero, is kept: the quotient is an
    \<open>npfloat\<close>, a real or one of inf, -inf, nan.
  \<^item> Sizes (\<^verbatim>\<open>batch_size\<close>, \<^verbatim>\<open>label_size\<close>, \<^verbatim>\<open>num_hidden_layers\<close>) are natural
    numbers; stage indices are Python ints.
  \<^item> Every raise is a value \<open>Inl e\<close>.
\<close>

subsection \<open>Data\<close>

datatype error = IndexError | AssertionError | ValueError | ZeroDivisionError

datatype npfloat = Finite real | PosInf | NegInf | NaN

text \<open>The attributes of the classifier object that the modelled code reads or writes,
  with \<^verbatim>\<open>max_seq_length\<close> and \<^verbatim>\<open>truncate_method\<close> standing for those it does not.\<close>

record classifier =
  gpu_ids :: "string list"
  batch_size :: nat
  label_size :: nat
  num_hidden_layers :: nat
  ignore_cls :: "int list"
  speed :: real
  session_mode :: "string option"
  max_seq_length :: nat
  truncate_method :: string

text \<open>One entry of the history of \<^verbatim>\<open>_permutate\<close>: one pass through the body of the
  innermost loop, that is, the consumption of row \<open>ev_row\<close> of \<^verbatim>\<open>batch_probs\<close> for
  example \<open>ev_ex\<close> in loop \<open>ev_loop\<close>; \<open>ev_exit\<close> tells whether the example was finalised
  there (lines 238-239) with source \<open>ev_src\<close>.\<close>

record event =
  ev_loop :: nat
  ev_ex :: nat
  ev_row :: nat
  ev_src :: int
  ev_exit :: bool

text \<open>The mutable locals of \<^verbatim>\<open>_permutate\<close>: the row counter \<^verbatim>\<open>i\<close> and the two output
  arrays. \<open>trace\<close> is a history variable, never read by the code.\<close>

record pstate =
  i :: nat
  probs :: "real list list"
  sources :: "int list"
  trace :: "event list"

subsection \<open>Configuration update of predict, score and export (lines 70-78, 100-108, 129-137)\<close>

text \<open>\<^verbatim>\<open>convert_ignore_cls\<close> lives in another module; its result is the parameter
  \<open>ignore_cls'\<close>.\<close>

definition update_ignore_cls :: "int list \<Rightarrow> classifier \<Rightarrow> classifier" where
  "update_ignore_cls ignore_cls' self =
     (if ignore_cls' \<noteq> ignore_cls self
      then self\<lparr>ignore_cls := ignore_cls', session_mode := None\<rparr>
      else self)"

definition update_speed :: "real \<Rightarrow> classifier \<Rightarrow> classifier" where
  "update_speed speed' self =
     (if speed' \<noteq> speed self
      then self\<lparr>speed := speed', session_mode := None\<rparr>
      else self)"

definition configure :: "real \<Rightarrow> int list \<Rightarrow> classifier \<Rightarrow> classifier" where
  "configure speed' ignore_cls' self = update_speed speed' (update_ignore_cls ignore_cls' self)"

definition predict_configure :: "real \<Rightarrow> int list \<Rightarrow> classifier \<Rightarrow> classifier" where
  "predict_configure = configure"

definition score_configure :: "real \<Rightarrow> int list \<Rightarrow> classifier \<Rightarrow> classifier" where
  "score_configure = configure"

definition export_configure :: "real \<Rightarrow> int list \<Rightarrow> classifier \<Rightarrow> classifier" where
  "export_configure = configure"

subsection \<open>The uncertainty score (lines 212-215)\<close>

text \<open>numpy's float division: a zero divisor gives inf, -inf or nan (and a warning),
  not an exception. The divisor here is \<^verbatim>\<open>np.log(...)\<close>, whose zero is +0.0.\<close>

definition np_div :: "real \<Rightarrow> real \<Rightarrow> npfloat" where
  "np_div x y =
     (if y \<noteq> 0 then Finite (x / y)
      else if x < 0 then NegInf
      else if 0 < x then PosInf
      else NaN)"

text \<open>The comparison \<^verbatim>\<open>x < s\<close> of a numpy float with a finite float.\<close>

fun np_less :: "npfloat \<Rightarrow> real \<Rightarrow> bool" where
  "np_less (Finite r) s = (r < s)"
| "np_less NegInf s = True"
| "np_less PosInf s = False"
| "np_less NaN s = False"

text \<open>Lines 213-214.\<close>

definition clamp_prob :: "real \<Rightarrow> real" where
  "clamp_prob prob = (if prob < 1 / 10 ^ 20 \<or> 1 - prob < 1 / 10 ^ 20 then 1 / 10 ^ 20 else prob)"

text \<open>Line 215. \<^verbatim>\<open>1 / self.label_size\<close> is Python's division and raises on zero;
  the outer division is numpy's.\<close>

definition uncertainty :: "classifier \<Rightarrow> real \<Rightarrow> error + npfloat" where
  "uncertainty self prob =
     (let prob = clamp_prob prob in
      if label_size self = 0 then Inl ZeroDivisionError
      else Inr (np_div (prob * ln prob + (1 - prob) * ln (1 - prob))
                       (ln (1 / real (label_size self)))))"

subsection \<open>The scheduler (lines 217-245)\<close>

definition n_device :: "classifier \<Rightarrow> nat" where
  "n_device self = max (length (gpu_ids self)) 1"

definition d_batch_size :: "classifier \<Rightarrow> nat" where
  "d_batch_size self = batch_size self div n_device self"

definition max_loop :: "classifier \<Rightarrow> int" where
  "max_loop self = int (num_hidden_layers self) + 1 - int (length (ignore_cls self))"

definition keep_cls :: "classifier \<Rightarrow> int list" where
  "keep_cls self =
     filter (\<lambda>cls_idx. cls_idx \<notin> set (ignore_cls self))
            (map int [0..<num_hidden_layers self + 1])"

text \<open>Lines 220, 221 and 227.\<close>

definition init_state :: "classifier \<Rightarrow> pstate" where
  "init_state self =
     \<lparr>i = 0,
      probs = replicate (batch_size self) (replicate (label_size self) 0),
      sources = replicate (batch_size self) 0,
      trace = []\<rparr>"

text \<open>Reading \<^verbatim>\<open>xs[n]\<close> with a non-negative index.\<close>

definition index :: "'a list \<Rightarrow> nat \<Rightarrow> error + 'a" where
  "index xs n = (if n < length xs then Inr (xs ! n) else Inl IndexError)"

text \<open>Line 238: numpy stores a row into a row of \<open>n\<close> entries if it has \<open>n\<close> entries,
  or one entry, which is then repeated.\<close>

definition assign_row :: "nat \<Rightarrow> real list \<Rightarrow> error + real list" where
  "assign_row n row =
     (if length row = n then Inr row
      else if length row = 1 then Inr (replicate n (row ! 0))
      else Inl ValueError)"

text \<open>Lines 238-239 and 242 for the example \<open>u\<close> = \<^verbatim>\<open>unfinished[k]\<close>.\<close>

definition finalize :: "nat \<Rightarrow> int \<Rightarrow> real list \<Rightarrow> nat \<Rightarrow> pstate \<Rightarrow> error + pstate" where
  "finalize loop source row u s =
     (if length (probs s) \<le> u then Inl IndexError
      else (case assign_row (length (probs s ! u)) row of
        Inl e \<Rightarrow> Inl e
      | Inr r \<Rightarrow>
          if length (sources s) \<le> u then Inl IndexError
          else Inr (s\<lparr>i := i s + 1,
                      probs := (probs s)[u := r],
                      sources := (sources s)[u := source],
                      trace := trace s @
                        [\<lparr>ev_loop = loop, ev_ex = u, ev_row = i s, ev_src = source, ev_exit = True\<rparr>]\<rparr>)))"

text \<open>Lines 241-242.\<close>

definition postpone :: "nat \<Rightarrow> int \<Rightarrow> nat \<Rightarrow> pstate \<Rightarrow> pstate" where
  "postpone loop source u s =
     s\<lparr>i := i s + 1,
       trace := trace s @
         [\<lparr>ev_loop = loop, ev_ex = u, ev_row = i s, ev_src = source, ev_exit = False\<rparr>]\<rparr>"

text \<open>Lines 237-242: the body of the loop over \<^verbatim>\<open>k\<close>, on the state and
  \<^verbatim>\<open>next_unfinished\<close>.\<close>

definition body ::
  "classifier \<Rightarrow> real list list \<Rightarrow> nat \<Rightarrow> int \<Rightarrow> nat \<Rightarrow> pstate \<times> nat list
     \<Rightarrow> error + pstate \<times> nat list" where
  "body self batch_probs loop source u st =
     (case st of (s, next_unfinished) \<Rightarrow>
      (case index batch_probs (i s) of
         Inl e \<Rightarrow> Inl e
       | Inr row \<Rightarrow>
      (case index row 0 of
         Inl e \<Rightarrow> Inl e
       | Inr p \<Rightarrow>
      (case uncertainty self p of
         Inl e \<Rightarrow> Inl e
       | Inr h \<Rightarrow>
          if np_less h (speed self) \<or> int loop = max_loop self - 1
          then (case finalize loop source row u s of
                  Inl e \<Rightarrow> Inl e
                | Inr s' \<Rightarrow> Inr (s', next_unfinished))
          else Inr (postpone loop source u s, next_unfinished @ [u])))))"

text \<open>Line 236: \<^verbatim>\<open>for k in range(len(unfinished))\<close>, by recursion on the entries
  \<^verbatim>\<open>unfinished[k]\<close> still to visit.\<close>

fun for_k ::
  "classifier \<Rightarrow> real list list \<Rightarrow> nat \<Rightarrow> int \<Rightarrow> nat list \<Rightarrow> pstate \<times> nat list
     \<Rightarrow> error + pstate \<times> nat list" where
  "for_k self batch_probs loop source [] st = Inr st"
| "for_k self batch_probs loop source (u # us) st =
     (case body self batch_probs loop source u st of
        Inl e \<Rightarrow> Inl e
      | Inr st' \<Rightarrow> for_k self batch_probs loop source us st')"

text \<open>Lines 232-243: \<^verbatim>\<open>for loop in range(max_loop)\<close>, by recursion on the loops still
  to run; the result carries the last value of \<^verbatim>\<open>unfinished\<close>.\<close>

fun for_loop ::
  "classifier \<Rightarrow> real list list \<Rightarrow> nat list \<Rightarrow> nat list \<Rightarrow> pstate
     \<Rightarrow> error + pstate \<times> nat list" where
  "for_loop self batch_probs [] unfinished s = Inr (s, unfinished)"
| "for_loop self batch_probs (loop # loops) unfinished s =
     (case index (keep_cls self) loop of
        Inl e \<Rightarrow> Inl e
      | Inr source \<Rightarrow>
          (case for_k self batch_probs loop source unfinished (s, []) of
             Inl e \<Rightarrow> Inl e
           | Inr (s', next_unfinished) \<Rightarrow> for_loop self batch_probs loops next_unfinished s'))"

text \<open>Line 230.\<close>

definition init_unfinished :: "classifier \<Rightarrow> pstate \<Rightarrow> nat list" where
  "init_unfinished self s = map (\<lambda>k. k + i s) [0..<d_batch_size self]"

text \<open>Lines 230-243 for one device.\<close>

definition device :: "classifier \<Rightarrow> real list list \<Rightarrow> pstate \<Rightarrow> error + pstate \<times> nat list" where
  "device self batch_probs s =
     for_loop self batch_probs [0..<nat (max_loop self)] (init_unfinished self s) s"

text \<open>Line 229: \<^verbatim>\<open>for d in range(n_device)\<close>.\<close>

fun for_d :: "classifier \<Rightarrow> real list list \<Rightarrow> nat list \<Rightarrow> pstate \<Rightarrow> error + pstate" where
  "for_d self batch_probs [] s = Inr s"
| "for_d self batch_probs (d # ds) s =
     (case device self batch_probs s of
        Inl e \<Rightarrow> Inl e
      | Inr (s', unfinished) \<Rightarrow> for_d self batch_probs ds s')"

text \<open>Lines 218-243: everything before the assertion.\<close>

definition permutate_loops :: "classifier \<Rightarrow> real list list \<Rightarrow> error + pstate" where
  "permutate_loops self batch_probs =
     for_d self batch_probs [0..<n_device self] (init_state self)"

text \<open>Lines 217-245.\<close>

definition permutate ::
  "classifier \<Rightarrow> real list list \<Rightarrow> error + real list list \<times> int list" where
  "permutate self batch_probs =
     (case permutate_loops self batch_probs of
        Inl e \<Rightarrow> Inl e
      | Inr s \<Rightarrow>
          if i s = length batch_probs then Inr (probs s, sources s)
          else Inl AssertionError)"

subsection \<open>The contract of the uncertainty score, in the words of its specification\<close>

text \<open>Replace \<open>p\<close> by 1e-20 whenever \<open>p < 1e-20\<close> or \<open>1 - p < 1e-20\<close>, then return
  \<open>(p*log(p) + (1-p)*log(1-p)) / log(1/label_size)\<close>.\<close>

definition uncertainty_spec :: "nat \<Rightarrow> real \<Rightarrow> npfloat" where
  "uncertainty_spec n p =
     (let p' = (if p < 1 / 10 ^ 20 \<or> 1 - p < 1 / 10 ^ 20 then 1 / 10 ^ 20 else p)
      in np_div (p' * ln p' + (1 - p') * ln (1 - p')) (ln (1 / real n)))"

subsection \<open>Notions used in the proofs\<close>

text \<open>The numerator of line 215 as a function of the (clamped) probability.\<close>

definition entropy :: "real \<Rightarrow> real" where
  "entropy q = q * ln q + (1 - q) * ln (1 - q)"

text \<open>The examples finalised so far, in the order of their finalisation.\<close>

definition finalized :: "pstate \<Rightarrow> nat list" where
  "finalized s = map ev_ex (filter ev_exit (trace s))"

text \<open>Rows are read in order, one per pass, and never beyond the input.\<close>

definition rows_in_order :: "real list list \<Rightarrow> pstate \<Rightarrow> bool" where
  "rows_in_order bp s \<longleftrightarrow> map ev_row (trace s) = [0..<i s] \<and> i s \<le> length bp"

text \<open>The output arrays keep the shape lines 220-221 give them.\<close>

definition well_shaped :: "classifier \<Rightarrow> pstate \<Rightarrow> bool" where
  "well_shaped self s \<longleftrightarrow>
     length (probs s) = batch_size self \<and> length (sources s) = batch_size self \<and>
     (\<forall>r\<in>set (probs s). length r = label_size self)"

text \<open>What a finalising pass stored is what the output arrays hold: the source, and the row
  of \<^verbatim>\<open>batch_probs\<close> as numpy stores it.\<close>

definition recorded :: "classifier \<Rightarrow> real list list \<Rightarrow> pstate \<Rightarrow> bool" where
  "recorded self bp s \<longleftrightarrow>
     (\<forall>ev\<in>set (trace s). ev_exit ev \<longrightarrow>
        ev_ex ev < batch_size self \<and> sources s ! ev_ex ev = ev_src ev \<and>
        assign_row (label_size self) (bp ! ev_row ev) = Inr (probs s ! ev_ex ev))"

text \<open>The invariant of the loops of one device: the examples \<open>A\<close> of the chunk are, without
  repetition, those finalised and those still pending.\<close>

definition settled :: "classifier \<Rightarrow> real list list \<Rightarrow> nat set \<Rightarrow> pstate \<Rightarrow> nat list \<Rightarrow> bool" where
  "settled self bp A s pend \<longleftrightarrow>
     distinct (finalized s @ pend) \<and> set (finalized s @ pend) = A \<and>
     well_shaped self s \<and> recorded self bp s"

text \<open>Every pass carries the source of its loop, \<^verbatim>\<open>keep_cls[loop]\<close>.\<close>

definition sourced :: "classifier \<Rightarrow> pstate \<Rightarrow> bool" where
  "sourced self s \<longleftrightarrow>
     (\<forall>ev\<in>set (trace s). ev_loop ev < length (keep_cls self) \<and>
        ev_src ev = keep_cls self ! ev_loop ev)"

text \<open>No score is below the threshold.\<close>

definition never_confident :: "classifier \<Rightarrow> bool" where
  "never_confident self \<longleftrightarrow> (\<forall>p h. uncertainty self p = Inr h \<longrightarrow> \<not> np_less h (speed self))"

text \<open>Every finalisation happened in the last loop.\<close>

definition forced :: "classifier \<Rightarrow> pstate \<Rightarrow> bool" where
  "forced self s \<longleftrightarrow> (\<forall>ev\<in>set (trace s). ev_exit ev \<longrightarrow> int (ev_loop ev) = max_loop self - 1)"

text \<open>The condition of line 237.\<close>

definition exit_test :: "classifier \<Rightarrow> nat \<Rightarrow> real \<Rightarrow> error + bool" where
  "exit_test self loop p =
     (case uncertainty self p of
        Inl e \<Rightarrow> Inl e
      | Inr h \<Rightarrow> Inr (np_less h (speed self) \<or> int loop = max_loop self - 1))"

text \<open>Two objects that agree on the configuration \<^verbatim>\<open>_permutate\<close> is said to depend on.\<close>

definition same_config :: "classifier \<Rightarrow> classifier \<Rightarrow> bool" where
  "same_config a b \<longleftrightarrow>
     speed a = speed b \<and> ignore_cls a = ignore_cls b \<and> label_size a = label_size b \<and>
     batch_size a = batch_size b \<and> n_device a = n_device b \<and>
     num_hidden_layers a = num_hidden_layers b"

subsection \<open>Concrete classifiers and batches\<close>

text \<open>The classifier as the constructor leaves it (lines 32-38), with two labels, two
  transformer layers, no GPU and a batch of three.\<close>

definition clf :: classifier where
  "clf = \<lparr>gpu_ids = [], batch_size = 3, label_size = 2, num_hidden_layers = 2,
          ignore_cls = [0], speed = 1 / 10, session_mode = Some ''predict'',
          max_seq_length = 128, truncate_method = ''LIFO''\<rparr>"

text \<open>The same with a single label.\<close>

definition clf_one_label :: classifier where
  "clf_one_label = clf\<lparr>label_size := 1\<rparr>"

text \<open>Five rows for the batch of three of \<open>clf\<close>: three of the first loop, of which the
  second is confident, and two of the last loop.\<close>

definition batch :: "real list list" where
  "batch = [[1 / 2, 1 / 2], [1, 0], [1 / 2, 1 / 2], [4 / 5, 1 / 5], [1 / 5, 4 / 5]]"

text \<open>The state after the first loop on \<open>batch\<close>.\<close>

definition batch_loop0 :: pstate where
  "batch_loop0 =
     \<lparr>i = 3, probs = [[0, 0], [1, 0], [0, 0]], sources = [0, 1, 0],
      trace =
        [\<lparr>ev_loop = 0, ev_ex = 0, ev_row = 0, ev_src = 1, ev_exit = False\<rparr>,
         \<lparr>ev_loop = 0, ev_ex = 1, ev_row = 1, ev_src = 1, ev_exit = True\<rparr>,
         \<lparr>ev_loop = 0, ev_ex = 2, ev_row = 2, ev_src = 1, ev_exit = False\<rparr>]\<rparr>"

text \<open>The state after the last loop on \<open>batch\<close>.\<close>

definition batch_final :: pstate where
  "batch_final =
     \<lparr>i = 5, probs = [[4 / 5, 1 / 5], [1, 0], [1 / 5, 4 / 5]], sources = [2, 1, 2],
      trace =
        [\<lparr>ev_loop = 0, ev_ex = 0, ev_row = 0, ev_src = 1, ev_exit = False\<rparr>,
         \<lparr>ev_loop = 0, ev_ex = 1, ev_row = 1, ev_src = 1, ev_exit = True\<rparr>,
         \<lparr>ev_loop = 0, ev_ex = 2, ev_row = 2, ev_src = 1, ev_exit = False\<rparr>,
         \<lparr>ev_loop = 1, ev_ex = 0, ev_row = 3, ev_src = 2, ev_exit = True\<rparr>,
         \<lparr>ev_loop = 1, ev_ex = 2, ev_row = 4, ev_src = 2, ev_exit = True\<rparr>]\<rparr>"

text \<open>\<open>batch\<close> followed by a row that no loop reads.\<close>

definition batch_long :: "real list list" where
  "batch_long = batch @ [[1 / 2, 1 / 2]]"

text \<open>\<open>clf\<close> on one GPU, with another session mode and sequence length.\<close>

definition clf_other :: classifier where
  "clf_other = clf\<lparr>gpu_ids := [''0''], session_mode := None, max_seq_length := 64\<rparr>"

text \<open>\<open>clf\<close> with threshold 0, and six rows for it: every example is scored in both loops.\<close>

definition clf_slow :: classifier where
  "clf_slow = clf\<lparr>speed := 0\<rparr>"

definition batch_slow :: "real list list" where
  "batch_slow = [[1 / 2, 1 / 2], [1, 0], [1 / 2, 1 / 2], [4 / 5, 1 / 5], [1, 0], [1 / 5, 4 / 5]]"

text \<open>Two GPUs and a batch of two, one example for each device; two stages
  (\<^verbatim>\<open>num_hidden_layers = 1\<close>, nothing ignored). Neither example is confident at the
  first stage, so each device yields two rows.\<close>

definition two_gpu :: classifier where
  "two_gpu = clf\<lparr>gpu_ids := [''0'', ''1''], batch_size := 2, num_hidden_layers := 1,
                 ignore_cls := []\<rparr>"

definition four_rows :: "real list list" where
  "four_rows = [[1 / 2, 1 / 2], [1 / 2, 1 / 2], [1 / 2, 1 / 2], [1 / 2, 1 / 2]]"

text \<open>The state after the loops of the first device on \<open>four_rows\<close>.\<close>

definition after_chunk0 :: pstate where
  "after_chunk0 =
     \<lparr>i = 2, probs = [[1 / 2, 1 / 2], [0, 0]], sources = [1, 0],
      trace =
        [\<lparr>ev_loop = 0, ev_ex = 0, ev_row = 0, ev_src = 0, ev_exit = False\<rparr>,
         \<lparr>ev_loop = 1, ev_ex = 0, ev_row = 1, ev_src = 1, ev_exit = True\<rparr>]\<rparr>"

section \<open>Properties\<close>

subsection \<open>Configuration update\<close>

lemma configure_eq:
  "configure sp ic self =
     (if sp \<noteq> speed self \<or> ic \<noteq> ignore_cls self
      then self\<lparr>ignore_cls := ic, speed := sp, session_mode := None\<rparr>
      else self)"
  by (simp add: configure_def update_speed_def update_ignore_cls_def)

text \<open>
  Claim C10. In \<^verbatim>\<open>predict\<close>, \<^verbatim>\<open>score\<close> and \<^verbatim>\<open>export\<close> alike, after the comparison
  logic the stored \<^verbatim>\<open>_speed\<close> and \<^verbatim>\<open>_ignore_cls\<close> are the supplied values; if the
  supplied speed or the converted \<^verbatim>\<open>ignore_cls\<close> differs from the stored one,
  \<^verbatim>\<open>_session_mode\<close> is \<^verbatim>\<open>None\<close>; if both equal the stored ones, the whole object,
  \<^verbatim>\<open>_session_mode\<close> included, is as it was. No other attribute is touched in either case.
\<close>

theorem configure_frame:
  assumes "f \<in> {predict_configure, score_configure, export_configure}"
  shows "speed (f sp ic self) = sp \<and> ignore_cls (f sp ic self) = ic \<and>
         (sp \<noteq> speed self \<or> ic \<noteq> ignore_cls self \<longrightarrow> session_mode (f sp ic self) = None) \<and>
         (sp = speed self \<and> ic = ignore_cls self \<longrightarrow> f sp ic self = self) \<and>
         f sp ic self = (self\<lparr>speed := sp, ignore_cls := ic,
                              session_mode := session_mode (f sp ic self)\<rparr>)"
proof -
  from assms have "f = configure"
    by (auto simp: predict_configure_def score_configure_def export_configure_def)
  then show ?thesis by (simp add: configure_eq)
qed

theorem configure_frame_witness:
  "predict_configure \<in> {predict_configure, score_configure, export_configure} \<and>
   speed (predict_configure (1 / 2) [0] clf) = 1 / 2 \<and>
   ignore_cls (predict_configure (1 / 2) [0] clf) = [0] \<and>
   session_mode clf = Some ''predict'' \<and>
   session_mode (predict_configure (1 / 2) [0] clf) = None"
  using configure_frame [of predict_configure "1 / 2" "[0]" clf]
  by (simp add: clf_def)

subsection \<open>The uncertainty score\<close>

lemma clamp_prob_bounds: "1 / 10 ^ 20 \<le> clamp_prob p \<and> clamp_prob p \<le> 1 - 1 / 10 ^ 20"
  by (simp add: clamp_prob_def)

lemma clamp_prob_open: "0 < clamp_prob p \<and> clamp_prob p < 1"
proof -
  have "(0::real) < 1 / 10 ^ 20" by simp
  with clamp_prob_bounds [of p] show ?thesis by linarith
qed

lemma entropy_neg:
  fixes q :: real
  assumes "0 < q" "q < 1"
  shows "q * ln q + (1 - q) * ln (1 - q) < 0"
proof -
  have "ln q < 0" using assms by simp
  then have a: "q * ln q < 0" using assms by (simp add: mult_pos_neg)
  have "ln (1 - q) < 0" using assms by simp
  then have b: "(1 - q) * ln (1 - q) < 0" using assms by (simp add: mult_pos_neg)
  from a b show ?thesis by linarith
qed

lemma ln_inverse_label:
  assumes "2 \<le> n"
  shows "ln (1 / real n) \<le> - ln 2"
proof -
  have "ln (2::real) \<le> ln (real n)" using assms by simp
  then show ?thesis using assms by (simp add: ln_div)
qed

lemma uncertainty_one:
  assumes "label_size self = 1"
  shows "uncertainty self p = Inr NegInf"
  using assms entropy_neg [of "clamp_prob p"] clamp_prob_open [of p]
  by (simp add: uncertainty_def np_div_def Let_def)

lemma uncertainty_finite:
  assumes "2 \<le> label_size self"
  shows "uncertainty self p =
    Inr (Finite ((clamp_prob p * ln (clamp_prob p) + (1 - clamp_prob p) * ln (1 - clamp_prob p))
                  / ln (1 / real (label_size self))))"
proof -
  have "ln (1 / real (label_size self)) < 0"
    using ln_inverse_label [OF assms] by (smt (verit) ln_gt_zero)
  then show ?thesis using assms by (simp add: uncertainty_def np_div_def Let_def)
qed

text \<open>
  Claim C4. \<^verbatim>\<open>_uncertainty\<close> is a function of the probability and of \<^verbatim>\<open>label_size\<close>
  alone: two objects with the same \<^verbatim>\<open>label_size\<close> give the same score, whatever their other
  attributes, and the model returns a value and no state. For a \<^verbatim>\<open>label_size\<close> that the
  constructor accepts (line 44 rejects 0), the value is the one the specification words:
  the probability replaced by 1e-20 when it or its complement is below 1e-20, then
  \<open>(p*log(p) + (1-p)*log(1-p)) / log(1/label_size)\<close>.
\<close>

theorem uncertainty_refines_spec:
  assumes "label_size self' = label_size self"
  shows "uncertainty self' p = uncertainty self p \<and>
         (label_size self \<noteq> 0 \<longrightarrow> uncertainty self p = Inr (uncertainty_spec (label_size self) p))"
  using assms by (simp add: uncertainty_def uncertainty_spec_def clamp_prob_def Let_def)

theorem uncertainty_refines_spec_witness:
  "label_size (clf\<lparr>speed := 1, session_mode := None\<rparr>) = label_size clf \<and>
   uncertainty (clf\<lparr>speed := 1, session_mode := None\<rparr>) (3 / 10) = uncertainty clf (3 / 10) \<and>
   label_size clf \<noteq> 0 \<and>
   uncertainty clf (3 / 10) = Inr (uncertainty_spec 2 (3 / 10))"
  using uncertainty_refines_spec [of "clf\<lparr>speed := 1, session_mode := None\<rparr>" clf "3 / 10"]
  by (simp add: clf_def)

lemma uncertainty_entropy:
  assumes "2 \<le> label_size self"
  shows "uncertainty self p = Inr (Finite (entropy (clamp_prob p) / ln (1 / real (label_size self))))"
  using uncertainty_finite [OF assms] by (simp add: entropy_def)

lemma ln_label_neg:
  assumes "2 \<le> label_size self"
  shows "ln (1 / real (label_size self)) < 0"
  using ln_inverse_label [OF assms] by (smt (verit) ln_gt_zero)

text \<open>The sign of the score: a negative numerator over a negative denominator. This is
  the only fact about the value of the score that the scheduler's properties rest on.\<close>

lemma score_nonneg:
  assumes "2 \<le> label_size self"
  shows "0 \<le> entropy (clamp_prob p) / ln (1 / real (label_size self))"
proof -
  have "entropy (clamp_prob p) < 0"
    unfolding entropy_def using entropy_neg clamp_prob_open by blast
  with ln_label_neg [OF assms] show ?thesis by (simp add: divide_nonpos_neg)
qed

text \<open>
  Claim C6, as amended. With \<^verbatim>\<open>label_size == 1\<close> the denominator \<open>log(1/label_size)\<close> is
  zero and nothing guards it: for every input probability the division by zero is carried
  out. It is numpy's division, so it raises nothing and yields -inf (the numerator is
  negative after the clamp).
\<close>

theorem uncertainty_label_size_one:
  assumes "label_size self = 1"
  shows "ln (1 / real (label_size self)) = 0 \<and> uncertainty self p = Inr NegInf"
  using assms uncertainty_one [of self p] by simp

theorem uncertainty_label_size_one_witness:
  "label_size clf_one_label = 1 \<and> ln (1 / real (label_size clf_one_label)) = 0 \<and>
   uncertainty clf_one_label 0 = Inr NegInf"
  using uncertainty_label_size_one [of clf_one_label 0]
  by (simp add: clf_one_label_def clf_def)

text \<open>The claim as first stated, that with \<^verbatim>\<open>label_size == 1\<close> no division by zero occurs
  for any input probability, fails at probability \<open>1/2\<close>: the divisor is zero and the
  result is the -inf of a division by zero, not a finite score.\<close>

theorem uncertainty_guard_counterexample:
  "label_size clf_one_label = 1 \<and>
   ln (1 / real (label_size clf_one_label)) = 0 \<and>
   uncertainty clf_one_label (1 / 2) = Inr NegInf \<and>
   uncertainty clf_one_label (1 / 2) \<noteq> Inr (Finite 0)"
proof -
  have l: "label_size clf_one_label = 1" by (simp add: clf_one_label_def clf_def)
  from uncertainty_one [OF l, of "1 / 2"] l show ?thesis by simp
qed

section \<open>The scheduler\<close>

subsection \<open>What one pass does\<close>

lemma index_Inr: "index xs n = Inr x \<longleftrightarrow> n < length xs \<and> x = xs ! n"
  by (auto simp: index_def)

lemma assign_row_length: "assign_row n row = Inr r \<Longrightarrow> length r = n"
  by (auto simp: assign_row_def split: if_splits)

lemma finalize_Inr:
  assumes "finalize loop src row u s = Inr s'"
  shows "u < length (probs s) \<and> u < length (sources s) \<and>
         (\<exists>r. assign_row (length (probs s ! u)) row = Inr r \<and>
              s' = s\<lparr>i := i s + 1, probs := (probs s)[u := r],
                     sources := (sources s)[u := src],
                     trace := trace s @
                       [\<lparr>ev_loop = loop, ev_ex = u, ev_row = i s, ev_src = src, ev_exit = True\<rparr>]\<rparr>)"
  using assms by (auto simp: finalize_def split: if_splits sum.splits)

lemma body_Inr:
  assumes "body self bp loop src u (s, nu) = Inr (s', nu')"
  shows "i s < length bp \<and>
         (\<exists>h. uncertainty self (bp ! i s ! 0) = Inr h \<and>
            ((np_less h (speed self) \<or> int loop = max_loop self - 1) \<and>
               finalize loop src (bp ! i s) u s = Inr s' \<and> nu' = nu
             \<or> \<not> np_less h (speed self) \<and> int loop \<noteq> max_loop self - 1 \<and>
               s' = postpone loop src u s \<and> nu' = nu @ [u]))"
  using assms by (auto simp: body_def index_Inr split: sum.splits if_splits)

text \<open>What one pass through the loop body does to the state.\<close>

lemma body_effect:
  assumes "body self bp loop src u (s, nu) = Inr (s', nu')"
  shows "\<exists>x. i s < length bp \<and> i s' = i s + 1 \<and>
           trace s' = trace s @
             [\<lparr>ev_loop = loop, ev_ex = u, ev_row = i s, ev_src = src, ev_exit = x\<rparr>] \<and>
           (if x
            then nu' = nu \<and> u < length (probs s) \<and> u < length (sources s) \<and>
                 sources s' = (sources s)[u := src] \<and>
                 (\<exists>r. assign_row (length (probs s ! u)) (bp ! i s) = Inr r \<and>
                      probs s' = (probs s)[u := r])
            else nu' = nu @ [u] \<and> probs s' = probs s \<and> sources s' = sources s \<and>
                 int loop \<noteq> max_loop self - 1)"
proof -
  from body_Inr [OF assms] obtain h where
    lt: "i s < length bp" and
    c: "(np_less h (speed self) \<or> int loop = max_loop self - 1) \<and>
          finalize loop src (bp ! i s) u s = Inr s' \<and> nu' = nu
        \<or> \<not> np_less h (speed self) \<and> int loop \<noteq> max_loop self - 1 \<and>
          s' = postpone loop src u s \<and> nu' = nu @ [u]"
    by blast
  from c show ?thesis
  proof
    assume a: "(np_less h (speed self) \<or> int loop = max_loop self - 1) \<and>
          finalize loop src (bp ! i s) u s = Inr s' \<and> nu' = nu"
    then have f: "finalize loop src (bp ! i s) u s = Inr s'" by simp
    from finalize_Inr [OF f] a lt show ?thesis
      by (intro exI [of _ True]) auto
  next
    assume a: "\<not> np_less h (speed self) \<and> int loop \<noteq> max_loop self - 1 \<and>
          s' = postpone loop src u s \<and> nu' = nu @ [u]"
    with lt show ?thesis
      by (intro exI [of _ False]) (simp add: postpone_def)
  qed
qed

subsection \<open>Invariants of the state alone\<close>

lemma for_k_state_invariant:
  assumes step: "\<And>u s nu s' nu'. I s \<Longrightarrow> body self bp loop src u (s, nu) = Inr (s', nu') \<Longrightarrow> I s'"
    and "I s" and "for_k self bp loop src us (s, nu) = Inr (s', nu')"
  shows "I s'"
  using assms(2,3)
proof (induction us arbitrary: s nu)
  case Nil
  then show ?case by simp
next
  case (Cons u us)
  from Cons.prems(2) obtain s1 nu1 where
    b: "body self bp loop src u (s, nu) = Inr (s1, nu1)" and
    r: "for_k self bp loop src us (s1, nu1) = Inr (s', nu')"
    by (auto split: sum.splits)
  from step [OF Cons.prems(1) b] have "I s1" .
  from Cons.IH [OF this r] show ?case .
qed

lemma for_loop_state_invariant:
  assumes step: "\<And>loop src u s nu s' nu'. I s \<Longrightarrow> index (keep_cls self) loop = Inr src \<Longrightarrow>
      body self bp loop src u (s, nu) = Inr (s', nu') \<Longrightarrow> I s'"
    and "I s" and "for_loop self bp loops unf s = Inr (s', unf')"
  shows "I s'"
  using assms(2,3)
proof (induction loops arbitrary: s unf)
  case Nil
  then show ?case by simp
next
  case (Cons l ls)
  from Cons.prems(2) obtain src s1 nu where
    x: "index (keep_cls self) l = Inr src" and
    k: "for_k self bp l src unf (s, []) = Inr (s1, nu)" and
    r: "for_loop self bp ls nu s1 = Inr (s', unf')"
    by (auto split: sum.splits)
  have "I s1"
    by (rule for_k_state_invariant [where I = I, OF _ Cons.prems(1) k]) (rule step [OF _ x])
  from Cons.IH [OF this r] show ?case .
qed

lemma for_d_state_invariant:
  assumes step: "\<And>loop src u s nu s' nu'. I s \<Longrightarrow> index (keep_cls self) loop = Inr src \<Longrightarrow>
      body self bp loop src u (s, nu) = Inr (s', nu') \<Longrightarrow> I s'"
    and "I s" and "for_d self bp ds s = Inr s'"
  shows "I s'"
  using assms(2,3)
proof (induction ds arbitrary: s)
  case Nil
  then show ?case by simp
next
  case (Cons d ds)
  from Cons.prems(2) obtain s1 unf where
    dv: "device self bp s = Inr (s1, unf)" and
    r: "for_d self bp ds s1 = Inr s'"
    by (auto split: sum.splits)
  have "I s1"
    by (rule for_loop_state_invariant [where I = I, OF step Cons.prems(1) dv [unfolded device_def]])
  from Cons.IH [OF this r] show ?case .
qed

lemma permutate_loops_invariant:
  assumes step: "\<And>loop src u s nu s' nu'. I s \<Longrightarrow> index (keep_cls self) loop = Inr src \<Longrightarrow>
      body self bp loop src u (s, nu) = Inr (s', nu') \<Longrightarrow> I s'"
    and "I (init_state self)" and "permutate_loops self bp = Inr s"
  shows "I s"
  by (rule for_d_state_invariant [where I = I, OF step assms(2) assms(3) [unfolded permutate_loops_def]])

lemma rows_in_order_body:
  assumes "rows_in_order bp s" "body self bp loop src u (s, nu) = Inr (s', nu')"
  shows "rows_in_order bp s'"
proof -
  from body_effect [OF assms(2)] obtain x where
    "i s < length bp" "i s' = i s + 1"
    "trace s' = trace s @ [\<lparr>ev_loop = loop, ev_ex = u, ev_row = i s, ev_src = src, ev_exit = x\<rparr>]"
    by blast
  with assms(1) show ?thesis by (simp add: rows_in_order_def)
qed

lemma rows_in_order_init: "rows_in_order bp (init_state self)"
  by (simp add: rows_in_order_def init_state_def)

lemma rows_in_order_permutate_loops:
  assumes "permutate_loops self bp = Inr s"
  shows "rows_in_order bp s"
  by (rule permutate_loops_invariant [where I = "rows_in_order bp", OF _ rows_in_order_init assms])
     (rule rows_in_order_body)

lemma finalized_snoc:
  assumes "trace s' = trace s @ [ev]"
  shows "finalized s' = (if ev_exit ev then finalized s @ [ev_ex ev] else finalized s)"
  using assms by (simp add: finalized_def)

lemma exit_in_finalized:
  assumes "ev \<in> set (trace s)" "ev_exit ev"
  shows "ev_ex ev \<in> set (finalized s)"
  using assms by (auto simp: finalized_def)

lemma well_shaped_body:
  assumes "well_shaped self s" "body self bp loop src u (s, nu) = Inr (s', nu')"
  shows "well_shaped self s'"
proof -
  from body_effect [OF assms(2)] obtain x where
    e: "if x
        then nu' = nu \<and> u < length (probs s) \<and> u < length (sources s) \<and>
             sources s' = (sources s)[u := src] \<and>
             (\<exists>r. assign_row (length (probs s ! u)) (bp ! i s) = Inr r \<and>
                  probs s' = (probs s)[u := r])
        else nu' = nu @ [u] \<and> probs s' = probs s \<and> sources s' = sources s \<and>
             int loop \<noteq> max_loop self - 1"
    by blast
  show ?thesis
  proof (cases x)
    case False
    with e assms(1) show ?thesis by (simp add: well_shaped_def)
  next
    case True
    with e obtain r where
      u: "u < length (probs s)" and
      a: "assign_row (length (probs s ! u)) (bp ! i s) = Inr r" and
      p: "probs s' = (probs s)[u := r]" and
      q: "sources s' = (sources s)[u := src]"
      by auto
    from assms(1) u have "length (probs s ! u) = label_size self"
      by (simp add: well_shaped_def)
    with assign_row_length [OF a] have lr: "length r = label_size self" by simp
    have "set ((probs s)[u := r]) \<subseteq> insert r (set (probs s))"
      by (rule set_update_subset_insert)
    with lr assms(1) have "\<forall>t\<in>set ((probs s)[u := r]). length t = label_size self"
      by (auto simp: well_shaped_def)
    with p q assms(1) show ?thesis by (simp add: well_shaped_def)
  qed
qed

lemma settled_body:
  assumes "settled self bp A s (u # us @ nu)"
    and "body self bp loop src u (s, nu) = Inr (s', nu')"
  shows "settled self bp A s' (us @ nu')"
proof -
  from assms(1) have
    d: "distinct (finalized s @ u # us @ nu)" and
    A: "set (finalized s @ u # us @ nu) = A" and
    w: "well_shaped self s" and
    rec: "recorded self bp s"
    by (simp_all add: settled_def)
  have w': "well_shaped self s'" by (rule well_shaped_body [OF w assms(2)])
  from body_effect [OF assms(2)] obtain x where
    t: "trace s' = trace s @
          [\<lparr>ev_loop = loop, ev_ex = u, ev_row = i s, ev_src = src, ev_exit = x\<rparr>]" and
    e: "if x
        then nu' = nu \<and> u < length (probs s) \<and> u < length (sources s) \<and>
             sources s' = (sources s)[u := src] \<and>
             (\<exists>r. assign_row (length (probs s ! u)) (bp ! i s) = Inr r \<and>
                  probs s' = (probs s)[u := r])
        else nu' = nu @ [u] \<and> probs s' = probs s \<and> sources s' = sources s \<and>
             int loop \<noteq> max_loop self - 1"
    by blast
  show ?thesis
  proof (cases x)
    case False
    with e have n: "nu' = nu @ [u]" "probs s' = probs s" "sources s' = sources s" by simp_all
    from finalized_snoc [OF t] False have f: "finalized s' = finalized s" by simp
    from d A have "distinct (finalized s' @ us @ nu') \<and> set (finalized s' @ us @ nu') = A"
      unfolding f n by auto
    moreover have "recorded self bp s'"
      using rec False unfolding recorded_def t n by auto
    ultimately show ?thesis using w' by (simp add: settled_def)
  next
    case True
    with e obtain r where
      nu: "nu' = nu" and
      u: "u < length (probs s)" "u < length (sources s)" and
      a: "assign_row (length (probs s ! u)) (bp ! i s) = Inr r" and
      p: "probs s' = (probs s)[u := r]" and
      q: "sources s' = (sources s)[u := src]"
      by auto
    from finalized_snoc [OF t] True have f: "finalized s' = finalized s @ [u]" by simp
    from d A have dA: "distinct (finalized s' @ us @ nu') \<and> set (finalized s' @ us @ nu') = A"
      unfolding f nu by auto
    from w u have lu: "length (probs s ! u) = label_size self" "u < batch_size self"
      by (simp_all add: well_shaped_def)
    have old: "ev_ex ev < batch_size self \<and> sources s' ! ev_ex ev = ev_src ev \<and>
        assign_row (label_size self) (bp ! ev_row ev) = Inr (probs s' ! ev_ex ev)"
      if "ev \<in> set (trace s)" "ev_exit ev" for ev
    proof -
      from exit_in_finalized [OF that] d have "ev_ex ev \<noteq> u" by auto
      with rec that show ?thesis unfolding recorded_def p q by simp
    qed
    have new: "u < batch_size self \<and> sources s' ! u = src \<and>
        assign_row (label_size self) (bp ! i s) = Inr (probs s' ! u)"
      using u a lu unfolding p q by simp
    have "recorded self bp s'"
      unfolding recorded_def t using old new by auto
    with dA w' show ?thesis by (simp add: settled_def)
  qed
qed

lemma settled_for_k:
  assumes "settled self bp A s (us @ nu)"
    and "for_k self bp loop src us (s, nu) = Inr (s', nu')"
  shows "settled self bp A s' nu'"
  using assms
proof (induction us arbitrary: s nu)
  case Nil
  then show ?case by simp
next
  case (Cons u us)
  from Cons.prems(2) obtain s1 nu1 where
    b: "body self bp loop src u (s, nu) = Inr (s1, nu1)" and
    r: "for_k self bp loop src us (s1, nu1) = Inr (s', nu')"
    by (auto split: sum.splits)
  from Cons.prems(1) have "settled self bp A s (u # us @ nu)" by simp
  from settled_body [OF this b] have "settled self bp A s1 (us @ nu1)" .
  from Cons.IH [OF this r] show ?case .
qed

lemma settled_for_loop:
  assumes "settled self bp A s unf"
    and "for_loop self bp loops unf s = Inr (s', unf')"
  shows "settled self bp A s' unf'"
  using assms
proof (induction loops arbitrary: s unf)
  case Nil
  then show ?case by simp
next
  case (Cons l ls)
  from Cons.prems(2) obtain src s1 nu where
    k: "for_k self bp l src unf (s, []) = Inr (s1, nu)" and
    r: "for_loop self bp ls nu s1 = Inr (s', unf')"
    by (auto split: sum.splits)
  from Cons.prems(1) have "settled self bp A s (unf @ [])" by simp
  from settled_for_k [OF this k] have "settled self bp A s1 nu" .
  from Cons.IH [OF this r] show ?case .
qed

text \<open>The last loop leaves nothing unfinished.\<close>

lemma for_k_last:
  assumes "int loop = max_loop self - 1"
    and "for_k self bp loop src us (s, nu) = Inr (s', nu')"
  shows "nu' = nu"
  using assms(2)
proof (induction us arbitrary: s nu)
  case Nil
  then show ?case by simp
next
  case (Cons u us)
  from Cons.prems obtain s1 nu1 where
    b: "body self bp loop src u (s, nu) = Inr (s1, nu1)" and
    r: "for_k self bp loop src us (s1, nu1) = Inr (s', nu')"
    by (auto split: sum.splits)
  from body_Inr [OF b] assms(1) have "nu1 = nu" by auto
  with Cons.IH [OF r] show ?case by simp
qed

lemma for_loop_last:
  assumes "int l = max_loop self - 1"
    and "for_loop self bp (loops @ [l]) unf s = Inr (s', unf')"
  shows "unf' = []"
  using assms(2)
proof (induction loops arbitrary: s unf)
  case Nil
  then obtain src s1 nu where
    k: "for_k self bp l src unf (s, []) = Inr (s1, nu)" and
    r: "for_loop self bp [] nu s1 = Inr (s', unf')"
    by (auto split: sum.splits)
  from for_k_last [OF assms(1) k] r show ?case by simp
next
  case (Cons x xs)
  then obtain src s1 nu where
    r: "for_loop self bp (xs @ [l]) nu s1 = Inr (s', unf')"
    by (auto split: sum.splits)
  from Cons.IH [OF r] show ?case .
qed

lemma device_leaves_none:
  assumes "1 \<le> max_loop self" "device self bp s = Inr (s', unf')"
  shows "unf' = []"
proof -
  let ?n = "nat (max_loop self)"
  from assms(1) have "[0..<?n] = [0..<?n - 1] @ [?n - 1]"
    by (metis Suc_diff_1 upt_Suc_append zero_le zero_less_nat_eq zless_iff_Suc_zadd
        add.commute int_ops(2) le_imp_0_less of_nat_0_le_iff order_less_le_trans zero_less_one)
  moreover from assms(1) have "int (?n - 1) = max_loop self - 1" by simp
  ultimately show ?thesis
    using for_loop_last [of "?n - 1" self bp "[0..<?n - 1]"] assms(2)
    by (simp add: device_def)
qed

subsection \<open>The kept stages\<close>

lemma keep_cls_valid:
  assumes "distinct (ignore_cls self)"
    and "set (ignore_cls self) \<subseteq> int ` {0..<num_hidden_layers self}"
  shows "int (length (keep_cls self)) = max_loop self \<and> 1 \<le> max_loop self"
proof -
  let ?L = "num_hidden_layers self"
  let ?S = "set (ignore_cls self)"
  let ?xs = "map int [0..<?L + 1]"
  have dx: "distinct ?xs" unfolding distinct_map
    by (intro conjI distinct_upt inj_onI) simp
  have sx: "set ?xs = int ` {0..<?L + 1}" by (simp only: set_map set_upt)
  have "{0..<?L} \<subseteq> {0..<?L + 1}" by simp
  then have "int ` {0..<?L} \<subseteq> int ` {0..<?L + 1}" by (rule image_mono)
  with assms(2) have "?S \<subseteq> int ` {0..<?L + 1}" by (rule subset_trans)
  then have sub: "?S \<subseteq> set ?xs" by (simp only: sx)
  have "length (filter (\<lambda>c. c \<in> ?S) ?xs) = card ({c. c \<in> ?S} \<inter> set ?xs)"
    by (rule distinct_length_filter [OF dx])
  also have "{c. c \<in> ?S} \<inter> set ?xs = ?S" using sub by auto
  also have "card ?S = length (ignore_cls self)" by (rule distinct_card [OF assms(1)])
  finally have inn: "length (filter (\<lambda>c. c \<in> ?S) ?xs) = length (ignore_cls self)" .
  have "length (filter (\<lambda>c. c \<in> ?S) ?xs) + length (filter (\<lambda>c. \<not> c \<in> ?S) ?xs) = length ?xs"
    by (rule sum_length_filter_compl)
  with inn have sum: "length (ignore_cls self) + length (keep_cls self) = ?L + 1"
    by (simp add: keep_cls_def)
  have "card ?S \<le> card (int ` {0..<?L})"
    by (rule card_mono [OF _ assms(2)]) simp
  also have "\<dots> \<le> ?L" by (simp add: card_image inj_on_def)
  finally have "length (ignore_cls self) \<le> ?L"
    using distinct_card [OF assms(1)] by simp
  with sum show ?thesis by (simp add: max_loop_def)
qed

lemma keep_cls_last:
  assumes "set (ignore_cls self) \<subseteq> int ` {0..<num_hidden_layers self}"
  shows "keep_cls self \<noteq> [] \<and> last (keep_cls self) = int (num_hidden_layers self)"
proof -
  let ?L = "num_hidden_layers self"
  have "int ?L \<notin> set (ignore_cls self)" using assms by auto
  then have "keep_cls self =
      filter (\<lambda>c. c \<notin> set (ignore_cls self)) (map int [0..<?L]) @ [int ?L]"
    by (simp add: keep_cls_def)
  then show ?thesis by simp
qed

subsection \<open>One device\<close>

lemma single_device:
  assumes "length (gpu_ids self) \<le> 1"
  shows "n_device self = 1" and "d_batch_size self = batch_size self"
    and "init_unfinished self (init_state self) = [0..<batch_size self]"
    and "permutate_loops self bp =
      (case device self bp (init_state self) of Inl e \<Rightarrow> Inl e | Inr (s, unf) \<Rightarrow> Inr s)"
proof -
  show n: "n_device self = 1" using assms by (simp add: n_device_def max_def)
  then show d: "d_batch_size self = batch_size self" by (simp add: d_batch_size_def)
  show "init_unfinished self (init_state self) = [0..<batch_size self]"
    by (simp add: init_unfinished_def d init_state_def)
  show "permutate_loops self bp =
      (case device self bp (init_state self) of Inl e \<Rightarrow> Inl e | Inr (s, unf) \<Rightarrow> Inr s)"
    by (simp add: permutate_loops_def n split: sum.splits)
qed

lemma settled_init:
  "settled self bp {0..<batch_size self} (init_state self) [0..<batch_size self]"
  by (simp add: settled_def finalized_def well_shaped_def recorded_def init_state_def)

lemma single_device_run:
  assumes "length (gpu_ids self) \<le> 1" "1 \<le> max_loop self"
    and "permutate_loops self bp = Inr s"
  shows "device self bp (init_state self) = Inr (s, []) \<and>
         settled self bp {0..<batch_size self} s []"
proof -
  from assms(3) single_device(4) [OF assms(1), of bp] obtain unf where
    dv: "device self bp (init_state self) = Inr (s, unf)"
    by (auto split: sum.splits)
  from device_leaves_none [OF assms(2) dv] have e: "unf = []" .
  from dv have "for_loop self bp [0..<nat (max_loop self)] [0..<batch_size self]
      (init_state self) = Inr (s, unf)"
    by (simp add: device_def single_device(3) [OF assms(1)])
  from settled_for_loop [OF settled_init this] dv e show ?thesis by simp
qed

subsection \<open>Where the recorded source comes from\<close>

lemma sourced_body:
  assumes "sourced self s" "index (keep_cls self) loop = Inr src"
    and "body self bp loop src u (s, nu) = Inr (s', nu')"
  shows "sourced self s'"
proof -
  from body_effect [OF assms(3)] obtain x where
    "trace s' = trace s @
       [\<lparr>ev_loop = loop, ev_ex = u, ev_row = i s, ev_src = src, ev_exit = x\<rparr>]"
    by blast
  with assms(1,2) show ?thesis by (auto simp: sourced_def index_Inr)
qed

lemma sourced_permutate_loops:
  assumes "permutate_loops self bp = Inr s"
  shows "sourced self s"
proof (rule permutate_loops_invariant [where I = "sourced self", OF _ _ assms])
  show "sourced self (init_state self)" by (simp add: sourced_def init_state_def)
qed (rule sourced_body)

subsection \<open>A threshold that no score is below\<close>

lemma forced_body:
  assumes "never_confident self" "forced self s"
    and "body self bp loop src u (s, nu) = Inr (s', nu')"
  shows "forced self s'"
proof -
  from body_Inr [OF assms(3)] assms(1) have
    c: "int loop = max_loop self - 1 \<and> finalize loop src (bp ! i s) u s = Inr s'
        \<or> s' = postpone loop src u s"
    by (auto simp: never_confident_def)
  then show ?thesis
  proof
    assume a: "int loop = max_loop self - 1 \<and> finalize loop src (bp ! i s) u s = Inr s'"
    then have f: "finalize loop src (bp ! i s) u s = Inr s'" by simp
    from finalize_Inr [OF f] a assms(2) show ?thesis by (auto simp: forced_def)
  next
    assume "s' = postpone loop src u s"
    with assms(2) show ?thesis by (auto simp: forced_def postpone_def)
  qed
qed

lemma forced_permutate_loops:
  assumes "never_confident self" "permutate_loops self bp = Inr s"
  shows "forced self s"
proof (rule permutate_loops_invariant [where I = "forced self", OF _ _ assms(2)])
  show "forced self (init_state self)" by (simp add: forced_def init_state_def)
qed (rule forced_body [OF assms(1)])

lemma speed_zero_never_confident:
  assumes "2 \<le> label_size self" "speed self = 0"
  shows "never_confident self"
  unfolding never_confident_def
proof (intro allI impI)
  fix p h
  assume "uncertainty self p = Inr h"
  with uncertainty_entropy [OF assms(1), of p]
  have "h = Finite (entropy (clamp_prob p) / ln (1 / real (label_size self)))" by simp
  with score_nonneg [OF assms(1), of p] assms(2) show "\<not> np_less h (speed self)" by simp
qed

subsection \<open>Rows consumed by one loop\<close>

lemma for_k_rows:
  assumes "for_k self bp loop src us (s, nu) = Inr (s', nu')"
  shows "i s' = i s + length us \<and>
         (\<exists>evs. trace s' = trace s @ evs \<and> map ev_ex evs = us \<and>
                map ev_row evs = [i s..<i s + length us])"
  using assms
proof (induction us arbitrary: s nu)
  case Nil
  then show ?case by simp
next
  case (Cons u us)
  from Cons.prems obtain s1 nu1 where
    b: "body self bp loop src u (s, nu) = Inr (s1, nu1)" and
    r: "for_k self bp loop src us (s1, nu1) = Inr (s', nu')"
    by (auto split: sum.splits)
  from body_effect [OF b] obtain x where
    i1: "i s1 = i s + 1" and
    t1: "trace s1 = trace s @
          [\<lparr>ev_loop = loop, ev_ex = u, ev_row = i s, ev_src = src, ev_exit = x\<rparr>]"
    by blast
  from Cons.IH [OF r] obtain evs where
    i': "i s' = i s1 + length us" and
    t': "trace s' = trace s1 @ evs" and
    ex: "map ev_ex evs = us" and
    rw: "map ev_row evs = [i s1..<i s1 + length us]"
    by blast
  let ?ev = "\<lparr>ev_loop = loop, ev_ex = u, ev_row = i s, ev_src = src, ev_exit = x\<rparr>"
  have a: "trace s' = trace s @ (?ev # evs)" using t' t1 by simp
  have b: "map ev_ex (?ev # evs) = u # us" using ex by simp
  have c: "map ev_row (?ev # evs) = [i s..<i s + length (u # us)]"
  proof -
    have "i s < i s + length (u # us)" by simp
    then have "[i s..<i s + length (u # us)] = i s # [Suc (i s)..<i s + length (u # us)]"
      by (rule upt_conv_Cons)
    moreover have "Suc (i s) = i s1" and "i s + length (u # us) = i s1 + length us"
      using i1 by simp_all
    ultimately have e: "[i s..<i s + length (u # us)] = i s # [i s1..<i s1 + length us]"
      by (simp only:)
    show ?thesis unfolding e using rw by simp
  qed
  have d: "i s' = i s + length (u # us)" using i' i1 by simp
  from a b c have "\<exists>evs'. trace s' = trace s @ evs' \<and> map ev_ex evs' = u # us \<and>
      map ev_row evs' = [i s..<i s + length (u # us)]"
    by (intro exI [of _ "?ev # evs"] conjI)
  with d show ?case by (intro conjI)
qed

lemma body_exit_test:
  "body self bp loop src u (s, nu) =
     (case index bp (i s) of
        Inl e \<Rightarrow> Inl e
      | Inr row \<Rightarrow>
     (case index row 0 of
        Inl e \<Rightarrow> Inl e
      | Inr p \<Rightarrow>
     (case exit_test self loop p of
        Inl e \<Rightarrow> Inl e
      | Inr c \<Rightarrow>
          if c then (case finalize loop src row u s of
                       Inl e \<Rightarrow> Inl e
                     | Inr s' \<Rightarrow> Inr (s', nu))
          else Inr (postpone loop src u s, nu @ [u]))))"
  by (simp add: body_def exit_test_def split: sum.splits)

lemma exit_test_last:
  assumes "label_size self \<noteq> 0" "int loop = max_loop self - 1"
  shows "exit_test self loop p = Inr True"
  using assms by (simp add: exit_test_def uncertainty_def Let_def)

lemma ln_two_ge_half: "1 / 2 \<le> ln (2::real)"
proof -
  have "ln (1 / 2 :: real) \<le> 1 / 2 - 1" by (rule ln_le_minus_one) simp
  then show ?thesis by (simp add: ln_div)
qed

lemma entropy_tiny: "- (1 / 10 ^ 17) < entropy (1 / 10 ^ 20)"
proof -
  let ?e = "1 / 10 ^ 20 :: real"
  have "ln (10::real) \<le> 10 - 1" by (rule ln_le_minus_one) simp
  then have l10: "ln (10::real) \<le> 9" by simp
  have "ln ?e = - (20 * ln 10)" using ln_realpow [of "10::real" 20] by (simp add: ln_div)
  with l10 have a: "- 180 \<le> ln ?e" by simp
  have "ln (1 / (1 - ?e)) \<le> 1 / (1 - ?e) - 1" by (rule ln_le_minus_one) simp
  then have "- ln (1 - ?e) \<le> 1 / (1 - ?e) - 1" by (simp add: ln_div)
  then have "(1 - ?e) * (- ln (1 - ?e)) \<le> (1 - ?e) * (1 / (1 - ?e) - 1)"
    by (intro mult_left_mono) simp_all
  then have b: "- ?e \<le> (1 - ?e) * ln (1 - ?e)" by (simp add: field_simps)
  have "?e * (- 180) \<le> ?e * ln ?e" using a by (intro mult_left_mono) simp_all
  with b have "?e * (- 180) - ?e \<le> entropy ?e" by (simp add: entropy_def)
  moreover have "- (1 / 10 ^ 17) < ?e * (- 180) - ?e" by simp
  ultimately show ?thesis by linarith
qed

lemma exit_test_certain:
  assumes "2 \<le> label_size self" "1 / 10 ^ 16 \<le> speed self"
    and "p < 1 / 10 ^ 20 \<or> 1 - p < 1 / 10 ^ 20"
  shows "exit_test self loop p = Inr True"
proof -
  let ?D = "ln (1 / real (label_size self))"
  from assms(3) have c: "clamp_prob p = 1 / 10 ^ 20" by (simp add: clamp_prob_def)
  have D: "?D \<le> - (1 / 2)"
    using ln_inverse_label [OF assms(1)] ln_two_ge_half by linarith
  then have D0: "?D < 0" by linarith
  have "?D * (1 / 10 ^ 16) \<le> - (1 / 2) * (1 / 10 ^ 16)"
    using D by (intro mult_right_mono) simp_all
  also have "\<dots> < - (1 / 10 ^ 17)" by simp
  also have "\<dots> < entropy (1 / 10 ^ 20)" by (rule entropy_tiny)
  finally have "?D * (1 / 10 ^ 16) < entropy (1 / 10 ^ 20)" .
  then have "entropy (1 / 10 ^ 20) / ?D < 1 / 10 ^ 16"
    using D0 by (simp add: divide_less_eq mult.commute)
  with assms(2) have "entropy (clamp_prob p) / ?D < speed self" unfolding c by linarith
  then show ?thesis
    by (simp add: exit_test_def uncertainty_entropy [OF assms(1)])
qed

lemma exit_test_half:
  assumes "label_size self = 2" "speed self \<le> 1" "int loop \<noteq> max_loop self - 1"
  shows "exit_test self loop (1 / 2) = Inr False"
proof -
  have l: "2 \<le> label_size self" using assms(1) by simp
  have "entropy (clamp_prob (1 / 2)) = - ln 2"
    by (simp add: entropy_def clamp_prob_def ln_div)
  moreover have "ln (1 / real (label_size self)) = - ln 2"
    using assms(1) by (simp add: ln_div)
  ultimately have "entropy (clamp_prob (1 / 2)) / ln (1 / real (label_size self)) = 1"
    by simp
  with assms(2,3) show ?thesis
    by (simp add: exit_test_def uncertainty_entropy [OF l])
qed

lemma exit_test_speed_zero:
  assumes "2 \<le> label_size self" "speed self = 0" "int loop \<noteq> max_loop self - 1"
  shows "exit_test self loop p = Inr False"
  using score_nonneg [OF assms(1), of p] assms(2,3)
  by (simp add: exit_test_def uncertainty_entropy [OF assms(1)])

lemma clf_facts:
  "keep_cls clf = [1, 2]" "max_loop clf = 2" "n_device clf = 1" "d_batch_size clf = 3"
  "init_state clf = \<lparr>i = 0, probs = [[0, 0], [0, 0], [0, 0]], sources = [0, 0, 0], trace = []\<rparr>"
  by (simp_all add: keep_cls_def max_loop_def n_device_def d_batch_size_def init_state_def
      clf_def upt_conv_Cons numeral_2_eq_2 numeral_3_eq_3)

lemma clf_exit_tests:
  "exit_test clf 0 (1 / 2) = Inr False" "exit_test clf 0 1 = Inr True"
  "exit_test clf (Suc 0) p = Inr True"
proof -
  show "exit_test clf 0 (1 / 2) = Inr False"
    by (rule exit_test_half) (simp_all add: clf_facts, simp_all add: clf_def)
  show "exit_test clf 0 1 = Inr True"
    by (rule exit_test_certain) (simp_all add: clf_def)
  show "exit_test clf (Suc 0) p = Inr True"
    by (rule exit_test_last) (simp_all add: clf_facts, simp_all add: clf_def)
qed

lemma clf_loop0:
  "for_k clf batch 0 1 [0, 1, 2] (init_state clf, []) = Inr (batch_loop0, [0, 2])"
  by (simp add: clf_facts body_exit_test clf_exit_tests index_def batch_def finalize_def
      assign_row_def postpone_def batch_loop0_def)

lemma clf_loop1:
  "for_k clf batch 1 2 [0, 2] (batch_loop0, []) = Inr (batch_final, [])"
  by (simp add: body_exit_test clf_exit_tests index_def batch_def finalize_def
      assign_row_def postpone_def batch_loop0_def batch_final_def)

lemma clf_device:
  "device clf batch (init_state clf) = Inr (batch_final, [])"
proof -
  have u: "[0..<nat (max_loop clf)] = [0, 1]"
    by (simp add: clf_facts upt_conv_Cons numeral_2_eq_2)
  have v: "init_unfinished clf (init_state clf) = [0, 1, 2]"
    by (simp add: init_unfinished_def clf_facts upt_conv_Cons numeral_3_eq_3 numeral_2_eq_2)
  show ?thesis
    unfolding device_def u v
    using clf_loop0 clf_loop1
    by (simp add: clf_facts(1) index_def del: for_k.simps)
qed

lemma clf_permutate_loops: "permutate_loops clf batch = Inr batch_final"
  by (simp add: permutate_loops_def clf_facts(3) clf_device)

lemma clf_permutate:
  "permutate clf batch = Inr ([[4 / 5, 1 / 5], [1, 0], [1 / 5, 4 / 5]], [2, 1, 2])"
  unfolding permutate_def clf_permutate_loops
  by (simp add: batch_final_def batch_def)

subsection \<open>The unfinished list keeps its order\<close>

lemma body_next:
  "body self bp loop src u (s, nu) = Inr (s', nu') \<Longrightarrow> nu' = nu \<or> nu' = nu @ [u]"
  using body_Inr [of self bp loop src u s nu s' nu'] by auto

lemma for_k_next:
  "for_k self bp loop src us (s, nu) = Inr (s', nu') \<Longrightarrow> \<exists>ks. nu' = nu @ ks \<and> subseq ks us"
proof (induction us arbitrary: s nu)
  case Nil
  then show ?case by simp
next
  case (Cons u us)
  from Cons.prems obtain s1 nu1 where
    b: "body self bp loop src u (s, nu) = Inr (s1, nu1)" and
    r: "for_k self bp loop src us (s1, nu1) = Inr (s', nu')"
    by (auto split: sum.splits)
  from Cons.IH [OF r] obtain ks where ks: "nu' = nu1 @ ks" "subseq ks us" by blast
  from body_next [OF b] show ?case
  proof
    assume "nu1 = nu"
    with ks show ?thesis by (intro exI [of _ ks]) (simp add: list_emb_Cons)
  next
    assume "nu1 = nu @ [u]"
    with ks show ?thesis by (intro exI [of _ "u # ks"]) simp
  qed
qed

lemma for_loop_subseq:
  "for_loop self bp loops unf s = Inr (s', unf') \<Longrightarrow> subseq unf' unf"
proof (induction loops arbitrary: unf s)
  case Nil
  then show ?case by simp
next
  case (Cons l ls)
  from Cons.prems obtain src s1 nu where
    k: "for_k self bp l src unf (s, []) = Inr (s1, nu)" and
    r: "for_loop self bp ls nu s1 = Inr (s', unf')"
    by (auto split: sum.splits)
  from for_k_next [OF k] have "subseq nu unf" by simp
  with Cons.IH [OF r] show ?case by (rule subseq_order.trans)
qed

text \<open>
  Claim C8. Within a device chunk, the unfinished list after a loop of \<^verbatim>\<open>_permutate\<close>
  is a subsequence of the list before that loop, and so is the list after any number of
  loops a subsequence of the list they started from: the surviving examples keep their
  relative order.
\<close>

theorem unfinished_subseq:
  "(for_k self batch_probs loop source unfinished (s, []) = Inr (s', next_unfinished)
      \<longrightarrow> subseq next_unfinished unfinished) \<and>
   (for_loop self batch_probs loops unfinished s = Inr (s'', unfinished')
      \<longrightarrow> subseq unfinished' unfinished)"
proof (intro conjI impI)
  assume "for_k self batch_probs loop source unfinished (s, []) = Inr (s', next_unfinished)"
  from for_k_next [OF this] show "subseq next_unfinished unfinished" by simp
next
  assume "for_loop self batch_probs loops unfinished s = Inr (s'', unfinished')"
  then show "subseq unfinished' unfinished" by (rule for_loop_subseq)
qed

theorem unfinished_subseq_witness:
  "for_k clf batch 0 1 [0, 1, 2] (init_state clf, []) = Inr (batch_loop0, [0, 2]) \<and>
   subseq [0, 2 :: nat] [0, 1, 2] \<and>
   for_loop clf batch [0, 1] [0, 1, 2] (init_state clf) = Inr (batch_final, []) \<and>
   subseq ([] :: nat list) [0, 1, 2]"
proof -
  have u: "[0..<nat (max_loop clf)] = [0, 1]"
    by (simp add: clf_facts upt_conv_Cons numeral_2_eq_2)
  have v: "init_unfinished clf (init_state clf) = [0, 1, 2]"
    by (simp add: init_unfinished_def clf_facts upt_conv_Cons numeral_3_eq_3 numeral_2_eq_2)
  from clf_device have l: "for_loop clf batch [0, 1] [0, 1, 2] (init_state clf) = Inr (batch_final, [])"
    unfolding device_def u v .
  from unfinished_subseq [of clf batch 0 1 "[0, 1, 2]" "init_state clf" batch_loop0 "[0, 2]"
      "[0, 1]" batch_final "[]"] clf_loop0 l
  show ?thesis by simp
qed

subsection \<open>Every example is finalised once\<close>

text \<open>
  Claim C1. With one device and \<^verbatim>\<open>ignore_cls\<close> a list of distinct stage indices
  that leaves out the final stage \<open>L\<close>, whenever the loops of \<^verbatim>\<open>_permutate\<close> run to their
  end: every example of the batch is finalised by exactly one pass (so in exactly one
  loop), the finalised examples are those of the batch, without repetition; what that pass
  stored, a row of \<^verbatim>\<open>batch_probs\<close> and a source from \<^verbatim>\<open>keep_cls\<close>, is what the output
  arrays hold at the end and what \<^verbatim>\<open>_permutate\<close> returns; and the unfinished list is
  empty after the last loop. The threshold plays no part: the statement holds for every
  \<^verbatim>\<open>speed\<close>, those of [0, 1] included.
\<close>

theorem permutate_assigns_once:
  assumes "length (gpu_ids self) \<le> 1"
    and "distinct (ignore_cls self)"
    and "set (ignore_cls self) \<subseteq> int ` {0..<num_hidden_layers self}"
    and "permutate_loops self batch_probs = Inr s"
  shows "(\<forall>j<batch_size self. \<exists>!ev. ev \<in> set (trace s) \<and> ev_exit ev \<and> ev_ex ev = j) \<and>
         distinct (map ev_ex (filter ev_exit (trace s))) \<and>
         set (map ev_ex (filter ev_exit (trace s))) = {0..<batch_size self} \<and>
         (\<forall>ev\<in>set (trace s). ev_exit ev \<longrightarrow>
            ev_src ev \<in> set (keep_cls self) \<and> sources s ! ev_ex ev = ev_src ev \<and>
            assign_row (label_size self) (batch_probs ! ev_row ev) = Inr (probs s ! ev_ex ev)) \<and>
         device self batch_probs (init_state self) = Inr (s, []) \<and>
         (\<forall>P S. permutate self batch_probs = Inr (P, S) \<longrightarrow> P = probs s \<and> S = sources s)"
proof -
  from keep_cls_valid [OF assms(2,3)] have m: "1 \<le> max_loop self" by simp
  from single_device_run [OF assms(1) m assms(4)] have
    dv: "device self batch_probs (init_state self) = Inr (s, [])" and
    st: "settled self batch_probs {0..<batch_size self} s []"
    by simp_all
  from st have
    d: "distinct (map ev_ex (filter ev_exit (trace s)))" and
    A: "set (map ev_ex (filter ev_exit (trace s))) = {0..<batch_size self}" and
    rec: "recorded self batch_probs s"
    by (simp_all add: settled_def finalized_def)
  have src: "sourced self s" by (rule sourced_permutate_loops [OF assms(4)])
  have one: "\<exists>!ev. ev \<in> set (trace s) \<and> ev_exit ev \<and> ev_ex ev = j" if "j < batch_size self" for j
  proof -
    from that A have "j \<in> set (map ev_ex (filter ev_exit (trace s)))" by simp
    then obtain ev where ev: "ev \<in> set (trace s)" "ev_exit ev" "ev_ex ev = j" by auto
    from d have inj: "inj_on ev_ex (set (filter ev_exit (trace s)))"
      by (simp add: distinct_map)
    show ?thesis
    proof (rule ex1I [of _ ev])
      show "ev \<in> set (trace s) \<and> ev_exit ev \<and> ev_ex ev = j" using ev by simp
    next
      fix ev'
      assume "ev' \<in> set (trace s) \<and> ev_exit ev' \<and> ev_ex ev' = j"
      with ev inj show "ev' = ev" by (auto dest: inj_onD)
    qed
  qed
  have rec': "ev_src ev \<in> set (keep_cls self) \<and> sources s ! ev_ex ev = ev_src ev \<and>
      assign_row (label_size self) (batch_probs ! ev_row ev) = Inr (probs s ! ev_ex ev)"
    if "ev \<in> set (trace s)" "ev_exit ev" for ev
    using that rec src by (auto simp: recorded_def sourced_def)
  have out: "P = probs s \<and> S = sources s" if "permutate self batch_probs = Inr (P, S)" for P S
    using that assms(4) by (auto simp: permutate_def split: if_splits)
  from one d A rec' dv out show ?thesis by blast
qed

theorem permutate_assigns_once_witness:
  "length (gpu_ids clf) \<le> 1 \<and> distinct (ignore_cls clf) \<and>
   set (ignore_cls clf) \<subseteq> int ` {0..<num_hidden_layers clf} \<and>
   permutate_loops clf batch = Inr batch_final \<and>
   distinct (map ev_ex (filter ev_exit (trace batch_final))) \<and>
   set (map ev_ex (filter ev_exit (trace batch_final))) = {0..<batch_size clf} \<and>
   device clf batch (init_state clf) = Inr (batch_final, [])"
proof -
  have a: "length (gpu_ids clf) \<le> 1" "distinct (ignore_cls clf)"
    by (simp_all add: clf_def)
  have b: "set (ignore_cls clf) \<subseteq> int ` {0..<num_hidden_layers clf}"
    by (auto simp: clf_def)
  from permutate_assigns_once [OF a b clf_permutate_loops] a b clf_permutate_loops
  show ?thesis by simp
qed

subsection \<open>Rows consumed and the final assertion\<close>

lemma body_more_rows:
  assumes "body self bp loop src u st = Inr r"
  shows "body self (bp @ extra) loop src u st = Inr r"
proof -
  obtain s nu where st: "st = (s, nu)" by (cases st)
  from assms st have "i s < length bp"
    by (auto simp: body_def index_def split: if_splits)
  then have "index (bp @ extra) (i s) = index bp (i s)"
    by (simp add: index_def nth_append)
  with assms st show ?thesis by (simp add: body_def)
qed

lemma for_k_more_rows:
  "for_k self bp loop src us st = Inr r \<Longrightarrow> for_k self (bp @ extra) loop src us st = Inr r"
proof (induction us arbitrary: st)
  case Nil
  then show ?case by simp
next
  case (Cons u us)
  from Cons.prems obtain st1 where
    b: "body self bp loop src u st = Inr st1" and
    r: "for_k self bp loop src us st1 = Inr r"
    by (auto split: sum.splits)
  from body_more_rows [OF b] Cons.IH [OF r] show ?case by simp
qed

lemma for_loop_more_rows:
  "for_loop self bp loops unf s = Inr r \<Longrightarrow> for_loop self (bp @ extra) loops unf s = Inr r"
proof (induction loops arbitrary: unf s)
  case Nil
  then show ?case by simp
next
  case (Cons l ls)
  from Cons.prems obtain src s1 nu where
    c: "index (keep_cls self) l = Inr src" and
    k: "for_k self bp l src unf (s, []) = Inr (s1, nu)" and
    r: "for_loop self bp ls nu s1 = Inr r"
    by (auto split: sum.splits)
  from c for_k_more_rows [OF k] Cons.IH [OF r] show ?case by simp
qed

lemma for_d_more_rows:
  "for_d self bp ds s = Inr r \<Longrightarrow> for_d self (bp @ extra) ds s = Inr r"
proof (induction ds arbitrary: s)
  case Nil
  then show ?case by simp
next
  case (Cons d ds)
  from Cons.prems obtain s1 unf where
    k: "device self bp s = Inr (s1, unf)" and
    r: "for_d self bp ds s1 = Inr r"
    by (auto split: sum.splits)
  from k have "device self (bp @ extra) s = Inr (s1, unf)"
    unfolding device_def by (rule for_loop_more_rows)
  with Cons.IH [OF r] show ?case by simp
qed

lemma permutate_loops_more_rows:
  "permutate_loops self bp = Inr s \<Longrightarrow> permutate_loops self (bp @ extra) = Inr s"
  unfolding permutate_loops_def by (rule for_d_more_rows)

text \<open>
  Claim C2. One loop over the unfinished list consumes one row per unfinished example, the
  rows in the order of \<^verbatim>\<open>batch_probs\<close> and the examples in the order of the list. When
  all chunks and loops are done the rows consumed are rows \<open>0, 1, \<dots>\<close> up to the counter
  \<^verbatim>\<open>i\<close>, in this order, and \<^verbatim>\<open>_permutate\<close> returns exactly when \<^verbatim>\<open>i\<close> is the number
  of rows handed in; otherwise it raises the assertion error of line 244; in particular
  it does so on every input with rows left over. A returned result therefore has consumed
  every row of the input, each once.
\<close>

theorem rows_consumed_in_order:
  "(for_k self batch_probs loop source unfinished (s, next_unfinished) = Inr (s', next_unfinished')
      \<longrightarrow> i s' = i s + length unfinished \<and>
          (\<exists>evs. trace s' = trace s @ evs \<and> map ev_ex evs = unfinished \<and>
                 map ev_row evs = [i s..<i s + length unfinished])) \<and>
   (permutate_loops self batch_probs = Inr t
      \<longrightarrow> map ev_row (trace t) = [0..<i t] \<and> i t \<le> length batch_probs \<and>
          permutate self batch_probs =
            (if i t = length batch_probs then Inr (probs t, sources t) else Inl AssertionError) \<and>
          (extra \<noteq> [] \<longrightarrow> permutate self (batch_probs @ extra) = Inl AssertionError)) \<and>
   (permutate self batch_probs = Inr (P, S)
      \<longrightarrow> (\<exists>t. permutate_loops self batch_probs = Inr t \<and> i t = length batch_probs \<and>
               map ev_row (trace t) = [0..<length batch_probs]))"
proof (intro conjI impI)
  assume "for_k self batch_probs loop source unfinished (s, next_unfinished) = Inr (s', next_unfinished')"
  from for_k_rows [OF this]
  show "i s' = i s + length unfinished"
    and "\<exists>evs. trace s' = trace s @ evs \<and> map ev_ex evs = unfinished \<and>
               map ev_row evs = [i s..<i s + length unfinished]"
    by simp_all
next
  assume t: "permutate_loops self batch_probs = Inr t"
  from rows_in_order_permutate_loops [OF t]
  show "map ev_row (trace t) = [0..<i t]" and le: "i t \<le> length batch_probs"
    by (simp_all add: rows_in_order_def)
  from t show "permutate self batch_probs =
      (if i t = length batch_probs then Inr (probs t, sources t) else Inl AssertionError)"
    by (simp add: permutate_def)
  assume "extra \<noteq> []"
  with le have "i t \<noteq> length (batch_probs @ extra)" by (cases extra) simp_all
  with permutate_loops_more_rows [OF t, of extra]
  show "permutate self (batch_probs @ extra) = Inl AssertionError"
    by (simp add: permutate_def)
next
  assume "permutate self batch_probs = Inr (P, S)"
  then obtain t where t: "permutate_loops self batch_probs = Inr t" "i t = length batch_probs"
    by (auto simp: permutate_def split: sum.splits if_splits)
  from rows_in_order_permutate_loops [OF t(1)] t(2)
  have "map ev_row (trace t) = [0..<length batch_probs]" by (simp add: rows_in_order_def)
  with t show "\<exists>t. permutate_loops self batch_probs = Inr t \<and> i t = length batch_probs \<and>
      map ev_row (trace t) = [0..<length batch_probs]"
    by blast
qed

theorem rows_consumed_in_order_witness:
  "for_k clf batch 0 1 [0, 1, 2] (init_state clf, []) = Inr (batch_loop0, [0, 2]) \<and>
   i (init_state clf) = 0 \<and> i batch_loop0 = 3 \<and>
   permutate_loops clf batch = Inr batch_final \<and>
   i batch_final = 5 \<and> length batch = 5 \<and>
   map ev_row (trace batch_final) = [0..<5] \<and>
   permutate clf batch = Inr ([[4 / 5, 1 / 5], [1, 0], [1 / 5, 4 / 5]], [2, 1, 2]) \<and>
   length batch_long = 6 \<and>
   permutate clf batch_long = Inl AssertionError"
proof -
  have a: "i (init_state clf) = 0" "i batch_loop0 = 3" "i batch_final = 5" "length batch = 5"
    "length batch_long = 6" "[[1 / 2, 1 / 2 :: real]] \<noteq> []"
    by (simp_all add: init_state_def batch_loop0_def batch_final_def batch_def batch_long_def)
  from rows_consumed_in_order [of clf batch 0 1 "[0, 1, 2]" "init_state clf" "[]" batch_loop0
      "[0, 2]" batch_final "[[1 / 2, 1 / 2]]" "[[4 / 5, 1 / 5], [1, 0], [1 / 5, 4 / 5]]"
      "[2, 1, 2]"]
    clf_loop0 clf_permutate_loops clf_permutate a
  show ?thesis by (simp add: batch_long_def)
qed

subsection \<open>Threshold zero\<close>

text \<open>
  Claim C7. With \<^verbatim>\<open>speed = 0\<close>, at least two labels, one device and \<^verbatim>\<open>ignore_cls\<close> a
  list of distinct stage indices that leaves out the final stage, no example exits early:
  whenever \<^verbatim>\<open>_permutate\<close> returns, every entry of \<^verbatim>\<open>sources\<close> is \<^verbatim>\<open>keep_cls[-1]\<close>
  and every finalisation happened in the last loop, because no score is strictly below 0.
  Of the value of the score only its sign is used: a negative numerator over a negative
  denominator.
\<close>

theorem speed_zero_exits_last:
  assumes "speed self = 0" and "2 \<le> label_size self"
    and "length (gpu_ids self) \<le> 1"
    and "distinct (ignore_cls self)"
    and "set (ignore_cls self) \<subseteq> int ` {0..<num_hidden_layers self}"
    and "permutate self batch_probs = Inr (P, S)"
  shows "length S = batch_size self \<and>
         (\<forall>j<batch_size self. S ! j = last (keep_cls self)) \<and>
         (\<forall>p h. uncertainty self p = Inr h \<longrightarrow> \<not> np_less h 0) \<and>
         (\<exists>s. permutate_loops self batch_probs = Inr s \<and>
              (\<forall>ev\<in>set (trace s). ev_exit ev \<longrightarrow> int (ev_loop ev) = max_loop self - 1))"
proof -
  from assms(6) obtain s where
    s: "permutate_loops self batch_probs = Inr s" and S: "S = sources s"
    by (auto simp: permutate_def split: sum.splits if_splits)
  from keep_cls_valid [OF assms(4,5)] have
    len: "int (length (keep_cls self)) = max_loop self" and m: "1 \<le> max_loop self"
    by simp_all
  from keep_cls_last [OF assms(5)] have ne: "keep_cls self \<noteq> []" by simp
  from single_device_run [OF assms(3) m s] have
    st: "settled self batch_probs {0..<batch_size self} s []" by simp
  then have
    A: "set (map ev_ex (filter ev_exit (trace s))) = {0..<batch_size self}" and
    ws: "well_shaped self s" and rec: "recorded self batch_probs s"
    by (simp_all add: settled_def finalized_def)
  have nc: "never_confident self" by (rule speed_zero_never_confident [OF assms(2,1)])
  have fo: "forced self s" by (rule forced_permutate_loops [OF nc s])
  have so: "sourced self s" by (rule sourced_permutate_loops [OF s])
  have l: "length S = batch_size self" using ws S by (simp add: well_shaped_def)
  have src: "S ! j = last (keep_cls self)" if "j < batch_size self" for j
  proof -
    from that A have "j \<in> set (map ev_ex (filter ev_exit (trace s)))" by simp
    then obtain ev where ev: "ev \<in> set (trace s)" "ev_exit ev" "ev_ex ev = j" by auto
    from fo ev have lo: "int (ev_loop ev) = max_loop self - 1" by (simp add: forced_def)
    with len have "ev_loop ev = length (keep_cls self) - 1" by linarith
    moreover from so ev have "ev_src ev = keep_cls self ! ev_loop ev" by (simp add: sourced_def)
    ultimately have "ev_src ev = last (keep_cls self)" using ne by (simp add: last_conv_nth)
    moreover from rec ev have "sources s ! j = ev_src ev" by (auto simp: recorded_def)
    ultimately show ?thesis using S by simp
  qed
  have un: "\<not> np_less h 0" if "uncertainty self p = Inr h" for p h
    using nc that assms(1) by (auto simp: never_confident_def)
  from fo have "\<forall>ev\<in>set (trace s). ev_exit ev \<longrightarrow> int (ev_loop ev) = max_loop self - 1"
    by (simp add: forced_def)
  with s l src un show ?thesis by blast
qed

lemma clf_slow_facts:
  "keep_cls clf_slow = [1, 2]" "max_loop clf_slow = 2" "n_device clf_slow = 1"
  "d_batch_size clf_slow = 3"
  "init_state clf_slow =
     \<lparr>i = 0, probs = [[0, 0], [0, 0], [0, 0]], sources = [0, 0, 0], trace = []\<rparr>"
  by (simp_all add: keep_cls_def max_loop_def n_device_def d_batch_size_def init_state_def
      clf_slow_def clf_def upt_conv_Cons numeral_2_eq_2 numeral_3_eq_3)

lemma clf_slow_exit_tests:
  "exit_test clf_slow 0 p = Inr False" "exit_test clf_slow (Suc 0) p = Inr True"
proof -
  show "exit_test clf_slow 0 p = Inr False"
    by (rule exit_test_speed_zero) (simp_all add: clf_slow_facts, simp_all add: clf_slow_def clf_def)
  show "exit_test clf_slow (Suc 0) p = Inr True"
    by (rule exit_test_last) (simp_all add: clf_slow_facts, simp_all add: clf_slow_def clf_def)
qed

lemma clf_slow_permutate:
  "permutate clf_slow batch_slow = Inr ([[4 / 5, 1 / 5], [1, 0], [1 / 5, 4 / 5]], [2, 2, 2])"
proof -
  have u: "[0..<nat (max_loop clf_slow)] = [0, 1]"
    by (simp add: clf_slow_facts upt_conv_Cons numeral_2_eq_2)
  have v: "init_unfinished clf_slow (init_state clf_slow) = [0, 1, 2]"
    by (simp add: init_unfinished_def clf_slow_facts upt_conv_Cons numeral_3_eq_3 numeral_2_eq_2)
  have "device clf_slow batch_slow (init_state clf_slow) =
      Inr (\<lparr>i = 6, probs = [[4 / 5, 1 / 5], [1, 0], [1 / 5, 4 / 5]], sources = [2, 2, 2],
            trace =
              [\<lparr>ev_loop = 0, ev_ex = 0, ev_row = 0, ev_src = 1, ev_exit = False\<rparr>,
               \<lparr>ev_loop = 0, ev_ex = 1, ev_row = 1, ev_src = 1, ev_exit = False\<rparr>,
               \<lparr>ev_loop = 0, ev_ex = 2, ev_row = 2, ev_src = 1, ev_exit = False\<rparr>,
               \<lparr>ev_loop = 1, ev_ex = 0, ev_row = 3, ev_src = 2, ev_exit = True\<rparr>,
               \<lparr>ev_loop = 1, ev_ex = 1, ev_row = 4, ev_src = 2, ev_exit = True\<rparr>,
               \<lparr>ev_loop = 1, ev_ex = 2, ev_row = 5, ev_src = 2, ev_exit = True\<rparr>]\<rparr>, [])"
    unfolding device_def u v
    by (simp add: clf_slow_facts(1,5) body_exit_test clf_slow_exit_tests index_def
        batch_slow_def finalize_def assign_row_def postpone_def)
  then show ?thesis
    by (simp add: permutate_def permutate_loops_def clf_slow_facts(3) batch_slow_def)
qed

theorem speed_zero_exits_last_witness:
  "speed clf_slow = 0 \<and> 2 \<le> label_size clf_slow \<and> length (gpu_ids clf_slow) \<le> 1 \<and>
   distinct (ignore_cls clf_slow) \<and>
   set (ignore_cls clf_slow) \<subseteq> int ` {0..<num_hidden_layers clf_slow} \<and>
   permutate clf_slow batch_slow = Inr ([[4 / 5, 1 / 5], [1, 0], [1 / 5, 4 / 5]], [2, 2, 2]) \<and>
   last (keep_cls clf_slow) = 2 \<and> batch_size clf_slow = 3 \<and>
   [2, 2, 2 :: int] ! 0 = last (keep_cls clf_slow) \<and>
   [2, 2, 2 :: int] ! 1 = last (keep_cls clf_slow) \<and>
   [2, 2, 2 :: int] ! 2 = last (keep_cls clf_slow)"
proof -
  have a: "speed clf_slow = 0" "2 \<le> label_size clf_slow" "length (gpu_ids clf_slow) \<le> 1"
    "distinct (ignore_cls clf_slow)" "batch_size clf_slow = 3"
    by (simp_all add: clf_slow_def clf_def)
  have b: "set (ignore_cls clf_slow) \<subseteq> int ` {0..<num_hidden_layers clf_slow}"
    by (auto simp: clf_slow_def clf_def)
  from speed_zero_exits_last [OF a(1-4) b clf_slow_permutate] a b clf_slow_permutate
  show ?thesis by (simp add: clf_slow_facts)
qed

subsection \<open>Dependence on the configuration only\<close>

lemma same_config_parts:
  assumes "same_config a b"
  shows "uncertainty a = uncertainty b" "max_loop a = max_loop b" "keep_cls a = keep_cls b"
    "d_batch_size a = d_batch_size b" "init_state a = init_state b" "speed a = speed b"
    "n_device a = n_device b"
  using assms
  by (simp_all add: same_config_def uncertainty_def max_loop_def keep_cls_def d_batch_size_def
      init_state_def fun_eq_iff Let_def)

lemma same_config_body:
  assumes "same_config a b"
  shows "body a bp loop src u st = body b bp loop src u st"
  unfolding body_def same_config_parts(1,2,6) [OF assms] by (rule refl)

lemma same_config_for_k:
  assumes "same_config a b"
  shows "for_k a bp loop src us st = for_k b bp loop src us st"
  by (induction us arbitrary: st) (simp_all add: same_config_body [OF assms] split: sum.splits)

lemma same_config_for_loop:
  assumes "same_config a b"
  shows "for_loop a bp loops unf s = for_loop b bp loops unf s"
  by (induction loops arbitrary: unf s)
    (simp_all add: same_config_for_k [OF assms] same_config_parts(3) [OF assms]
      split: sum.splits)

lemma same_config_device:
  assumes "same_config a b"
  shows "device a bp s = device b bp s"
  by (simp add: device_def init_unfinished_def same_config_for_loop [OF assms]
      same_config_parts(2,4) [OF assms])

lemma same_config_for_d:
  assumes "same_config a b"
  shows "for_d a bp ds s = for_d b bp ds s"
  by (induction ds arbitrary: s)
    (simp_all add: same_config_device [OF assms] split: sum.splits prod.splits)

text \<open>
  Claim C9. The result of \<^verbatim>\<open>_permutate\<close>, the two arrays or the exception, is a function
  of \<^verbatim>\<open>batch_probs\<close> and of speed, \<^verbatim>\<open>ignore_cls\<close>, \<^verbatim>\<open>label_size\<close>, \<^verbatim>\<open>batch_size\<close>,
  the number of devices and \<^verbatim>\<open>num_hidden_layers\<close>: two objects that agree on these
  give the same result on the same input, whatever else they differ in.
\<close>

theorem permutate_deterministic:
  assumes "speed a = speed b" and "ignore_cls a = ignore_cls b"
    and "label_size a = label_size b" and "batch_size a = batch_size b"
    and "n_device a = n_device b" and "num_hidden_layers a = num_hidden_layers b"
  shows "permutate a batch_probs = permutate b batch_probs"
proof -
  from assms have c: "same_config a b" by (simp add: same_config_def)
  have "permutate_loops a batch_probs = permutate_loops b batch_probs"
    by (simp add: permutate_loops_def same_config_for_d [OF c] same_config_parts(5,7) [OF c])
  then show ?thesis by (simp add: permutate_def)
qed

theorem permutate_deterministic_witness:
  "speed clf = speed clf_other \<and> ignore_cls clf = ignore_cls clf_other \<and>
   label_size clf = label_size clf_other \<and> batch_size clf = batch_size clf_other \<and>
   n_device clf = n_device clf_other \<and> num_hidden_layers clf = num_hidden_layers clf_other \<and>
   gpu_ids clf \<noteq> gpu_ids clf_other \<and>
   permutate clf batch = permutate clf_other batch \<and>
   permutate clf_other batch = Inr ([[4 / 5, 1 / 5], [1, 0], [1 / 5, 4 / 5]], [2, 1, 2])"
proof -
  have a: "speed clf = speed clf_other" "ignore_cls clf = ignore_cls clf_other"
    "label_size clf = label_size clf_other" "batch_size clf = batch_size clf_other"
    "n_device clf = n_device clf_other" "num_hidden_layers clf = num_hidden_layers clf_other"
    "gpu_ids clf \<noteq> gpu_ids clf_other"
    by (simp_all add: clf_other_def clf_def n_device_def)
  from permutate_deterministic [OF a(1-6), of batch] a clf_permutate
  show ?thesis by simp
qed

subsection \<open>The chunks of several devices\<close>

lemma two_gpu_facts:
  "keep_cls two_gpu = [0, 1]" "max_loop two_gpu = 2" "n_device two_gpu = 2"
  "d_batch_size two_gpu = 1"
  "init_state two_gpu = \<lparr>i = 0, probs = [[0, 0], [0, 0]], sources = [0, 0], trace = []\<rparr>"
  by (simp_all add: keep_cls_def max_loop_def n_device_def d_batch_size_def init_state_def
      two_gpu_def clf_def upt_conv_Cons numeral_2_eq_2 numeral_3_eq_3)

lemma two_gpu_exit_tests:
  "exit_test two_gpu 0 (1 / 2) = Inr False" "exit_test two_gpu (Suc 0) p = Inr True"
proof -
  show "exit_test two_gpu 0 (1 / 2) = Inr False"
    by (rule exit_test_half) (simp_all add: two_gpu_facts, simp_all add: two_gpu_def clf_def)
  show "exit_test two_gpu (Suc 0) p = Inr True"
    by (rule exit_test_last) (simp_all add: two_gpu_facts, simp_all add: two_gpu_def clf_def)
qed

lemma two_gpu_loops: "[0..<nat (max_loop two_gpu)] = [0, 1]"
  by (simp add: two_gpu_facts upt_conv_Cons numeral_2_eq_2)

lemma two_gpu_chunk0:
  "device two_gpu four_rows (init_state two_gpu) = Inr (after_chunk0, [])"
  unfolding device_def two_gpu_loops
  by (simp add: init_unfinished_def two_gpu_facts body_exit_test two_gpu_exit_tests index_def
      four_rows_def finalize_def assign_row_def postpone_def after_chunk0_def)

lemma two_gpu_chunk1:
  "device two_gpu four_rows after_chunk0 = Inl IndexError"
  unfolding device_def two_gpu_loops
  by (simp add: init_unfinished_def two_gpu_facts body_exit_test two_gpu_exit_tests index_def
      four_rows_def finalize_def assign_row_def postpone_def after_chunk0_def)

text \<open>
  Claim C3 says that the chunk of device \<open>d\<close> starts its unfinished list at index
  \<open>d * (batch_size // n_device)\<close>. Line 230 adds the row counter \<^verbatim>\<open>i\<close> instead, which
  after a chunk is the number of rows read so far. With two devices, a batch of two and
  no example confident at the first stage, the first chunk reads two rows: the second
  chunk starts at index 2 where its example is index 1, and the store of line 238 raises
  \<^verbatim>\<open>IndexError\<close>.
\<close>

theorem chunk_offset_failing_input:
  "n_device two_gpu = 2 \<and> batch_size two_gpu = 2 \<and> d_batch_size two_gpu = 1 \<and>
   init_unfinished two_gpu (init_state two_gpu) = [0] \<and>
   device two_gpu four_rows (init_state two_gpu) = Inr (after_chunk0, []) \<and>
   init_unfinished two_gpu after_chunk0 = [2] \<and>
   init_unfinished two_gpu after_chunk0 \<noteq> [1 * d_batch_size two_gpu] \<and>
   permutate two_gpu four_rows = Inl IndexError"
proof -
  have "[0..<n_device two_gpu] = [0, 1]"
    by (simp add: two_gpu_facts upt_conv_Cons numeral_2_eq_2)
  then have "permutate_loops two_gpu four_rows = Inl IndexError"
    by (simp add: permutate_loops_def two_gpu_chunk0 two_gpu_chunk1)
  then have "permutate two_gpu four_rows = Inl IndexError" by (simp add: permutate_def)
  moreover have "batch_size two_gpu = 2" by (simp add: two_gpu_def)
  moreover have "init_unfinished two_gpu (init_state two_gpu) = [0]"
    "init_unfinished two_gpu after_chunk0 = [2]"
    by (simp_all add: init_unfinished_def two_gpu_facts after_chunk0_def)
  ultimately show ?thesis by (simp add: two_gpu_facts(3,4) two_gpu_chunk0)
qed

end
